theory Spec2Isabelle
  imports Complex_Main "HOL-Library.Word"
begin

unbundle bit_operations_syntax

section \<open>Time\<close>

text \<open>
  Go's \<open>time.Time\<close> is modelled by the reading of the monotonic clock in nanoseconds
  and \<open>time.Duration\<close> (an \<open>int64\<close> of nanoseconds) by an \<open>int\<close>.
  \<open>time.Since(t)\<close> is \<open>time.Now().Sub(t)\<close>, which saturates at the ends of the
  \<open>int64\<close> range; the current time is an explicit argument.
\<close>

type_synonym instant = int
type_synonym duration = int

definition Minute :: duration where
  "Minute = 60 * 1000000000"

definition Hour :: duration where
  "Hour = 60 * Minute"

definition maxDuration :: duration where
  "maxDuration = 2 ^ 63 - 1"

definition minDuration :: duration where
  "minDuration = - (2 ^ 63)"

definition time_Since :: "instant \<Rightarrow> instant \<Rightarrow> duration" where
  "time_Since now t =
     (if now - t > maxDuration then maxDuration
      else if now - t < minDuration then minDuration
      else now - t)"

text \<open>
  \<open>Duration.Hours()\<close> returns the duration as a number of hours; the \<open>float64\<close> of the
  source is modelled by a real number.
\<close>

definition Duration_Hours :: "duration \<Rightarrow> real" where
  "Duration_Hours d = real_of_int d / real_of_int Hour"


section \<open>OTA access control\<close>

text \<open>
  The variables \<open>otaEnabled\<close>, \<open>otaEnabledAt\<close> and \<open>otaTimeout\<close>, which the source
  guards with \<open>otaMu\<close>. Every operation holds the mutex for its whole body, so each is
  one atomic state transformer.
\<close>

record ota_access =
  otaEnabled :: bool
  otaEnabledAt :: instant
  otaTimeout :: duration

definition otaDefaultTimeout :: duration where
  "otaDefaultTimeout = 10 * Minute"

definition OTAEnable :: "instant \<Rightarrow> duration \<Rightarrow> ota_access \<Rightarrow> ota_access" where
  "OTAEnable now timeout a =
     a\<lparr>otaEnabled := True, otaEnabledAt := now,
       otaTimeout := (if timeout = 0 then otaDefaultTimeout else timeout)\<rparr>"

definition OTADisable :: "ota_access \<Rightarrow> ota_access" where
  "OTADisable a = a\<lparr>otaEnabled := False\<rparr>"

text \<open>\<open>OTAIsEnabled\<close> returns its answer together with the state it leaves behind.\<close>

definition OTAIsEnabled :: "instant \<Rightarrow> ota_access \<Rightarrow> bool \<times> ota_access" where
  "OTAIsEnabled now a =
     (if \<not> otaEnabled a then (False, a)
      else if time_Since now (otaEnabledAt a) > otaTimeout a
           then (False, a\<lparr>otaEnabled := False\<rparr>)
      else (True, a))"

definition OTATimeRemaining :: "instant \<Rightarrow> ota_access \<Rightarrow> duration" where
  "OTATimeRemaining now a =
     (if \<not> otaEnabled a then 0
      else let remaining = otaTimeout a - time_Since now (otaEnabledAt a)
           in if remaining < 0 then 0 else remaining)"


section \<open>Functional watchdog\<close>

text \<open>
  The variables \<open>lastSuccessfulRefresh\<close>, \<open>consecutiveFailures\<close> and \<open>systemHealthy\<close> of
  \<open>main.go\<close>, and the number of times \<open>machine.Watchdog.Update()\<close> has been called.
\<close>

record health =
  lastSuccessfulRefresh :: instant
  consecutiveFailures :: int
  systemHealthy :: bool
  watchdogUpdates :: nat

definition maxConsecutiveFailures :: int where
  "maxConsecutiveFailures = 3"

definition maxHoursWithoutRefresh :: real where
  "maxHoursWithoutRefresh = 12"

definition feedWatchdogIfHealthy :: "health \<Rightarrow> health" where
  "feedWatchdogIfHealthy h =
     (if systemHealthy h then h\<lparr>watchdogUpdates := watchdogUpdates h + 1\<rparr> else h)"

definition checkSystemHealth :: "instant \<Rightarrow> health \<Rightarrow> health" where
  "checkSystemHealth now h =
     (if consecutiveFailures h \<ge> maxConsecutiveFailures then h\<lparr>systemHealthy := False\<rparr>
      else if Duration_Hours (time_Since now (lastSuccessfulRefresh h)) \<ge> maxHoursWithoutRefresh
           then h\<lparr>systemHealthy := False\<rparr>
      else h)"

text \<open>
  The two outcomes of a schedule refresh in the main loop: all retries exhausted
  (\<open>consecutiveFailures++\<close>, then \<open>checkSystemHealth\<close>), and success (counter reset,
  timestamp set to \<open>time.Now()\<close>).
\<close>

definition refresh_failed :: "instant \<Rightarrow> health \<Rightarrow> health" where
  "refresh_failed now h = checkSystemHealth now (h\<lparr>consecutiveFailures := consecutiveFailures h + 1\<rparr>)"

definition refresh_succeeded :: "instant \<Rightarrow> health \<Rightarrow> health" where
  "refresh_succeeded now h = h\<lparr>consecutiveFailures := 0, lastSuccessfulRefresh := now\<rparr>"

text \<open>\<open>fatalError\<close> clears the flag before it waits for the reset.\<close>

definition fatalError :: "health \<Rightarrow> health" where
  "fatalError h = h\<lparr>systemHealthy := False\<rparr>"

text \<open>
  Every statement of the program that reads or writes \<open>systemHealthy\<close> or feeds the
  watchdog is one of these steps; the tasks are scheduled cooperatively, so a run of the
  program is a sequence of them.
\<close>

datatype health_step =
    FeedWatchdogIfHealthy
  | RefreshFailed instant
  | RefreshSucceeded instant
  | FatalError

fun health_do :: "health_step \<Rightarrow> health \<Rightarrow> health" where
  "health_do FeedWatchdogIfHealthy h = feedWatchdogIfHealthy h"
| "health_do (RefreshFailed now) h = refresh_failed now h"
| "health_do (RefreshSucceeded now) h = refresh_succeeded now h"
| "health_do FatalError h = fatalError h"

fun health_run :: "health_step list \<Rightarrow> health \<Rightarrow> health" where
  "health_run [] h = h"
| "health_run (s # ss) h = health_run ss (health_do s h)"


section \<open>Bytes and SHA-256\<close>

text \<open>
  Go's \<open>byte\<close> is an 8-bit word and a Go \<open>string\<close> or \<open>[]byte\<close> a list of them;
  \<open>str\<close> turns a string literal of the source into its bytes.
\<close>

type_synonym byte = "8 word"
type_synonym u32 = "32 word"

definition str :: "string \<Rightarrow> byte list" where
  "str s = map of_char s"

text \<open>
  \<open>crypto/sha256\<close> of the Go standard library, following FIPS 180-4. The session's
  \<open>hasher\<close> is modelled by the list of the bytes written to it, and \<open>hasher.Sum(nil)\<close>
  by \<open>sha256\<close> of that list. The round constants and the initial hash value are
  written in decimal; the digest of the empty message is checked below.
\<close>

definition rotr :: "nat \<Rightarrow> u32 \<Rightarrow> u32" where
  "rotr n x = (drop_bit n x) OR (push_bit (32 - n) x)"

definition sha_K :: "u32 list" where
  "sha_K = [
    1116352408, 1899447441, 3049323471, 3921009573, 961987163, 1508970993,
    2453635748, 2870763221, 3624381080, 310598401, 607225278, 1426881987,
    1925078388, 2162078206, 2614888103, 3248222580, 3835390401, 4022224774,
    264347078, 604807628, 770255983, 1249150122, 1555081692, 1996064986,
    2554220882, 2821834349, 2952996808, 3210313671, 3336571891, 3584528711,
    113926993, 338241895, 666307205, 773529912, 1294757372, 1396182291,
    1695183700, 1986661051, 2177026350, 2456956037, 2730485921, 2820302411,
    3259730800, 3345764771, 3516065817, 3600352804, 4094571909, 275423344,
    430227734, 506948616, 659060556, 883997877, 958139571, 1322822218,
    1537002063, 1747873779, 1955562222, 2024104815, 2227730452, 2361852424,
    2428436474, 2756734187, 3204031479, 3329325298]"

definition sha_init :: "u32 list" where
  "sha_init = [1779033703, 3144134277, 1013904242, 2773480762,
               1359893119, 2600822924, 528734635, 1541459225]"

definition ssig0 :: "u32 \<Rightarrow> u32" where
  "ssig0 x = rotr 7 x XOR rotr 18 x XOR drop_bit 3 x"

definition ssig1 :: "u32 \<Rightarrow> u32" where
  "ssig1 x = rotr 17 x XOR rotr 19 x XOR drop_bit 10 x"

definition bsig0 :: "u32 \<Rightarrow> u32" where
  "bsig0 x = rotr 2 x XOR rotr 13 x XOR rotr 22 x"

definition bsig1 :: "u32 \<Rightarrow> u32" where
  "bsig1 x = rotr 6 x XOR rotr 11 x XOR rotr 25 x"

definition ch :: "u32 \<Rightarrow> u32 \<Rightarrow> u32 \<Rightarrow> u32" where
  "ch x y z = (x AND y) XOR (NOT x AND z)"

definition maj :: "u32 \<Rightarrow> u32 \<Rightarrow> u32 \<Rightarrow> u32" where
  "maj x y z = (x AND y) XOR (x AND z) XOR (y AND z)"

text \<open>The message schedule is kept with its most recent word first.\<close>

fun sha_extend :: "nat \<Rightarrow> u32 list \<Rightarrow> u32 list" where
  "sha_extend 0 r = r"
| "sha_extend (Suc n) r = sha_extend n ((ssig1 (r ! 1) + r ! 6 + ssig0 (r ! 14) + r ! 15) # r)"

fun sha_round :: "u32 list \<Rightarrow> (u32 \<times> u32) \<Rightarrow> u32 list" where
  "sha_round [a, b, c, d, e, f, g, h] (k, w) =
     (let t1 = h + bsig1 e + ch e f g + k + w; t2 = bsig0 a + maj a b c
      in [t1 + t2, a, b, c, d + t1, e, f, g])"
| "sha_round v _ = v"

fun be32 :: "byte list \<Rightarrow> u32 list" where
  "be32 (a # b # c # d # r) =
     (push_bit 24 (ucast a) OR push_bit 16 (ucast b) OR push_bit 8 (ucast c) OR ucast d) # be32 r"
| "be32 _ = []"

definition sha_block :: "u32 list \<Rightarrow> byte list \<Rightarrow> u32 list" where
  "sha_block hv blk =
     (let w = rev (sha_extend 48 (rev (be32 blk)));
          v = foldl sha_round hv (zip sha_K w)
      in map2 (+) hv v)"

function sha_blocks :: "u32 list \<Rightarrow> byte list \<Rightarrow> u32 list" where
  "sha_blocks hv m =
     (if length m < 64 then hv else sha_blocks (sha_block hv (take 64 m)) (drop 64 m))"
  by pat_completeness auto
termination
  by (relation "measure (\<lambda>(hv, m). length m)") auto

text \<open>
  The padding of \<open>checkSum\<close>: the byte \<open>0x80\<close> and zeros, \<open>t\<close> bytes in all, where
  \<open>t\<close> is \<open>56 - len%64\<close> if \<open>len%64 < 56\<close> and \<open>64 + 56 - len%64\<close> otherwise,
  then the length in bits as 8 bytes, most significant first.
\<close>

definition sha_pad :: "byte list \<Rightarrow> byte list" where
  "sha_pad m =
     (let l = length m;
          t = (if l mod 64 < 56 then 56 - l mod 64 else 64 + 56 - l mod 64);
          bits = (word_of_nat (8 * l) :: 64 word)
      in m @ [0x80] @ replicate (t - 1) 0
           @ map (\<lambda>i. ucast (drop_bit (8 * (7 - i)) bits)) [0..<8])"

definition be_bytes :: "u32 \<Rightarrow> byte list" where
  "be_bytes x = [ucast (drop_bit 24 x), ucast (drop_bit 16 x), ucast (drop_bit 8 x), ucast x]"

definition sha256 :: "byte list \<Rightarrow> byte list" where
  "sha256 m = concat (map be_bytes (sha_blocks sha_init (sha_pad m)))"


section \<open>Package ota\<close>

text \<open>
  The flash is modelled by the list of the ROM operations issued on it, in order:
  \<open>FlashErase offset\<close> is \<open>ota_flash_erase(offset, SectorSize)\<close>, which erases the
  \<open>SectorSize\<close> bytes from \<open>offset\<close>, and \<open>FlashProgram offset data\<close> is
  \<open>ota_flash_write(offset, data, len)\<close>. \<open>EraseSector\<close> and \<open>WriteChunk\<close> return the
  error of the source (always \<open>nil\<close>) and the extended list.
\<close>

definition PartitionA :: int where
  "PartitionA = 0"

definition PartitionB :: int where
  "PartitionB = 1"

definition SectorSize :: u32 where
  "SectorSize = 4096"

datatype ota_error = ErrFlashWriteFailed | ErrFlashEraseFailed

datatype flash_op = FlashErase u32 | FlashProgram u32 "byte list"

text \<open>The argument of \<open>GetTargetPartition\<close> is what \<open>GetCurrentPartition()\<close> returns.\<close>

definition GetTargetPartition :: "int \<Rightarrow> int" where
  "GetTargetPartition current = (if current = PartitionA then PartitionB else PartitionA)"

definition GetPartitionOffset :: "int \<Rightarrow> u32" where
  "GetPartitionOffset p = (if p = 0 then 0x2000 else 0x1F2000)"

definition EraseSector :: "u32 \<Rightarrow> flash_op list \<Rightarrow> ota_error option \<times> flash_op list" where
  "EraseSector offset fl = (None, fl @ [FlashErase offset])"

definition WriteChunk :: "u32 \<Rightarrow> byte list \<Rightarrow> flash_op list \<Rightarrow> ota_error option \<times> flash_op list" where
  "WriteChunk offset data fl =
     (if length data = 0 then (None, fl) else (None, fl @ [FlashProgram offset data]))"


section \<open>Reading from the connection\<close>

text \<open>
  The receive side of the connection is the list of the byte segments that arrive before
  the deadlines of the reads that consume them; \<open>conn.Read(buf)\<close> takes at most
  \<open>len(buf)\<close> bytes of the first one. When the list is exhausted a read ends by its
  timeout (or the connection has closed): both reads then return an error.

  \<open>readWithTimeout k\<close> reads into a buffer of \<open>k\<close> bytes and returns on the first data;
  its result is the bytes read, whether \<open>err == nil\<close>, and the segments left.
  \<open>readExactly needed got\<close> is the loop of \<open>readExactly\<close> with \<open>got\<close> the bytes read
  so far; \<open>None\<close> is the error.
\<close>

fun readWithTimeout :: "nat \<Rightarrow> byte list list \<Rightarrow> byte list \<times> bool \<times> byte list list" where
  "readWithTimeout k [] = ([], False, [])"
| "readWithTimeout k (seg # rest) =
     (if seg = [] then readWithTimeout k rest
      else if k = 0 then ([], False, seg # rest)
      else (take k seg, True, if drop k seg = [] then rest else drop k seg # rest))"

definition rx_size :: "byte list list \<Rightarrow> nat" where
  "rx_size segs = sum_list (map length segs) + length segs"

function readExactly :: "nat \<Rightarrow> byte list \<Rightarrow> byte list list \<Rightarrow> (byte list \<times> byte list list) option" where
  "readExactly needed got [] = (if length got < needed then None else Some (got, []))"
| "readExactly needed got (seg # rest) =
     (if length got < needed
      then readExactly needed (got @ take (needed - length got) seg)
             (if drop (needed - length got) seg = [] then rest
              else drop (needed - length got) seg # rest)
      else Some (got, seg # rest))"
  by pat_completeness auto
termination
  by (relation "measure (\<lambda>(needed, got, segs). rx_size segs)") (auto simp: rx_size_def)


section \<open>Formatting helpers\<close>

text \<open>
  \<open>writeOTAInt\<close> returns the bytes it writes. Its loop runs while \<open>n > 0\<close>, where Go's
  \<open>/\<close> and \<open>%\<close> agree with \<open>div\<close> and \<open>mod\<close>.
\<close>

function writeOTAInt_loop :: "int \<Rightarrow> byte list \<Rightarrow> byte list" where
  "writeOTAInt_loop n buf =
     (if n > 0
      then writeOTAInt_loop (n div 10) ((of_char (CHR ''0'') + word_of_int (n mod 10)) # buf)
      else buf)"
  by pat_completeness auto
termination
  by (relation "measure (\<lambda>(n, buf). nat n)") auto

definition writeOTAInt :: "int \<Rightarrow> byte list" where
  "writeOTAInt n = (if n = 0 then [of_char (CHR ''0'')] else writeOTAInt_loop n [])"

definition hexDigits :: "byte list" where
  "hexDigits = str ''0123456789abcdef''"

definition formatHashHex :: "byte list \<Rightarrow> byte list" where
  "formatHashHex hash =
     concat (map (\<lambda>b. [hexDigits ! unat (drop_bit 4 b), hexDigits ! unat (b AND 0xf)]) hash)"

text \<open>
  \<open>trimSpace\<close>: the first loop of the source advances \<open>start\<close> over the leading spaces,
  newlines and carriage returns, the second moves \<open>end\<close> back over the trailing ones.
\<close>

definition is_space :: "byte \<Rightarrow> bool" where
  "is_space c = (c = of_char (CHR '' '') \<or> c = of_char (CHR ''\<newline>'') \<or> c = of_char (CHR 0x0D))"

definition trimSpace :: "byte list \<Rightarrow> byte list" where
  "trimSpace s = rev (dropWhile is_space (rev (dropWhile is_space s)))"

text \<open>\<open>binary.LittleEndian.Uint32\<close>, which the source applies to four bytes.\<close>

fun Uint32 :: "byte list \<Rightarrow> u32" where
  "Uint32 (b0 # b1 # b2 # b3 # _) =
     ucast b0 OR push_bit 8 (ucast b1) OR push_bit 16 (ucast b2) OR push_bit 24 (ucast b3)"
| "Uint32 _ = 0"


section \<open>The OTA session\<close>

text \<open>
  The state of \<open>handleOTASession\<close>: the connection (segments still to be read, bytes
  written so far), the hasher, \<open>totalBytes\<close>, \<open>chunkNum\<close>, the \<open>erasedSectors\<close> bitmap
  and the flash operations issued. Logging, the sleeps, the pausing of the background
  tasks and the feeding of the watchdog do not touch this state and are left out.
\<close>

definition otaBufSize :: nat where
  "otaBufSize = 4096 + 64"

definition otaMaxFwSize :: int where
  "otaMaxFwSize = 1984 * 1024"

record session =
  rx :: "byte list list"
  tx :: "byte list"
  hasher :: "byte list"
  totalBytes :: u32
  chunkNum :: int
  erasedSectors :: "bool list"
  flash :: "flash_op list"

text \<open>
  How a session ends: one value for each \<open>return\<close> of \<open>handleOTASession\<close>, and
  \<open>RebootToPartition p\<close> for reaching the call \<open>ota.RebootToPartition(p)\<close>.
\<close>

datatype ending =
    NoInit | BadInit | ReadTimeout | HashMismatch | RebootToPartition int
  | ChunkTooLarge | FirmwareTooLarge | ChunkReadFailed | EraseFailed | WriteFailed

datatype step = Continue session | Stop ending session

definition writeOTA :: "byte list \<Rightarrow> session \<Rightarrow> session" where
  "writeOTA b s = s\<lparr>tx := tx s @ b\<rparr>"

text \<open>
  The body of the erase loop, and the loop \<open>for sector := startSector; sector <= endSector;
  sector++\<close>. The sector numbers are quotients by \<open>SectorSize\<close>, so \<open>sector++\<close> never
  wraps around and the loop variable is a natural number.
\<close>

definition erase_sector :: "u32 \<Rightarrow> nat \<Rightarrow> session \<Rightarrow> ota_error option \<times> session" where
  "erase_sector partitionOffset sector s =
     (if sector < length (erasedSectors s) \<and> \<not> erasedSectors s ! sector then
        (case EraseSector (partitionOffset + of_nat sector * SectorSize) (flash s) of
           (Some err, fl) \<Rightarrow> (Some err, s\<lparr>flash := fl\<rparr>)
         | (None, fl) \<Rightarrow> (None, s\<lparr>flash := fl, erasedSectors := (erasedSectors s)[sector := True]\<rparr>))
      else (None, s))"

function erase_sectors :: "u32 \<Rightarrow> nat \<Rightarrow> nat \<Rightarrow> session \<Rightarrow> ota_error option \<times> session" where
  "erase_sectors partitionOffset sector endSector s =
     (if sector \<le> endSector then
        (case erase_sector partitionOffset sector s of
           (Some err, s') \<Rightarrow> (Some err, s')
         | (None, s') \<Rightarrow> erase_sectors partitionOffset (sector + 1) endSector s')
      else (None, s))"
  by pat_completeness auto
termination
  by (relation "measure (\<lambda>(po, sector, endSector, s). Suc endSector - sector)") auto

declare erase_sectors.simps [simp del]
declare writeOTAInt_loop.simps [simp del]

text \<open>The branch taken when the four bytes read are \<open>DONE\<close>.\<close>

definition handle_done :: "int \<Rightarrow> session \<Rightarrow> ending \<times> session" where
  "handle_done targetPartition s =
     (case readWithTimeout 124 (rx s) of (rest, ok, rx') \<Rightarrow>
        let fullCmd = str ''DONE'' @ rest;
            expectedHash = (if length fullCmd > 5 then trimSpace (drop 5 fullCmd) else []);
            actualHashHex = formatHashHex (sha256 (hasher s))
        in if expectedHash \<noteq> [] \<and> expectedHash \<noteq> actualHashHex
           then (HashMismatch, writeOTA (str ''ERROR hash mismatch\<newline>'') (s\<lparr>rx := rx'\<rparr>))
           else (RebootToPartition targetPartition,
                 writeOTA (str ''VERIFIED\<newline>'') (s\<lparr>rx := rx'\<rparr>)))"

text \<open>
  The rest of the loop body, for a chunk whose length field is \<open>chunkLen\<close>. The
  arithmetic on \<open>totalBytes\<close> and \<open>chunkLen\<close> is that of \<open>uint32\<close>; the
  \<open>int(totalBytes)\<close> of the acknowledgement is the signed reading of the 32-bit target.
\<close>

definition handle_chunk :: "u32 \<Rightarrow> u32 \<Rightarrow> session \<Rightarrow> step" where
  "handle_chunk partitionOffset chunkLen s =
     (if chunkLen > of_nat otaBufSize
      then Stop ChunkTooLarge (writeOTA (str ''ERROR chunk too large\<newline>'') s)
      else if totalBytes s + chunkLen > word_of_int otaMaxFwSize
      then Stop FirmwareTooLarge (writeOTA (str ''ERROR firmware too large\<newline>'') s)
      else case readExactly (unat chunkLen) [] (rx s) of
        None \<Rightarrow> Stop ChunkReadFailed (s\<lparr>rx := []\<rparr>)
      | Some (data, rx') \<Rightarrow>
          let s1 = s\<lparr>rx := rx', hasher := hasher s @ data\<rparr>;
              flashOffset = partitionOffset + totalBytes s1;
              startSector = totalBytes s1 div SectorSize;
              endSector = (totalBytes s1 + chunkLen - 1) div SectorSize
          in case erase_sectors partitionOffset (unat startSector) (unat endSector) s1 of
               (Some err, s2) \<Rightarrow> Stop EraseFailed (writeOTA (str ''ERROR erase failed\<newline>'') s2)
             | (None, s2) \<Rightarrow>
                 (case WriteChunk flashOffset data (flash s2) of
                    (Some err, fl) \<Rightarrow>
                      Stop WriteFailed (writeOTA (str ''ERROR write failed\<newline>'') (s2\<lparr>flash := fl\<rparr>))
                  | (None, fl) \<Rightarrow>
                      let s3 = s2\<lparr>flash := fl, totalBytes := totalBytes s2 + chunkLen,
                                  chunkNum := chunkNum s2 + 1\<rparr>
                      in Continue (writeOTA (str ''ACK '' @ writeOTAInt (sint (totalBytes s3))
                                             @ str ''\<newline>'') s3)))"

definition ota_iteration :: "int \<Rightarrow> u32 \<Rightarrow> session \<Rightarrow> step" where
  "ota_iteration targetPartition partitionOffset s =
     (case readExactly 4 [] (rx s) of
        None \<Rightarrow> Stop ReadTimeout (s\<lparr>rx := []\<rparr>)
      | Some (hdr, rx') \<Rightarrow>
          if hdr = str ''DONE''
          then (case handle_done targetPartition (s\<lparr>rx := rx'\<rparr>) of (e, s') \<Rightarrow> Stop e s')
          else handle_chunk partitionOffset (Uint32 hdr) (s\<lparr>rx := rx'\<rparr>))"

text \<open>Every iteration that continues has consumed its four header bytes.\<close>

lemma readExactly_size_le:
  "readExactly needed got segs = Some (data, segs') \<Longrightarrow> rx_size segs' \<le> rx_size segs"
proof (induction needed got segs rule: readExactly.induct)
  case (1 needed got)
  then show ?case by (simp split: if_splits)
next
  case (2 needed got seg rest)
  show ?case
  proof (cases "length got < needed")
    case True
    let ?k = "needed - length got"
    let ?segs = "if drop ?k seg = [] then rest else drop ?k seg # rest"
    from True "2.prems" have "readExactly needed (got @ take ?k seg) ?segs = Some (data, segs')"
      by simp
    from "2.IH" [OF True this] have "rx_size segs' \<le> rx_size ?segs" .
    also have "rx_size ?segs \<le> rx_size (seg # rest)"
      by (simp add: rx_size_def)
    finally show ?thesis .
  next
    case False
    with "2.prems" show ?thesis by simp
  qed
qed

lemma readExactly_size:
  assumes r: "readExactly needed got segs = Some (data, segs')" and lt: "length got < needed"
  shows "rx_size segs' < rx_size segs"
proof (cases segs)
  case Nil
  with r lt show ?thesis by simp
next
  case (Cons seg rest)
  let ?k = "needed - length got"
  let ?segs = "if drop ?k seg = [] then rest else drop ?k seg # rest"
  from r lt Cons have "readExactly needed (got @ take ?k seg) ?segs = Some (data, segs')"
    by simp
  then have "rx_size segs' \<le> rx_size ?segs"
    by (rule readExactly_size_le)
  also from lt have "rx_size ?segs < rx_size (seg # rest)"
    by (simp add: rx_size_def) arith
  finally show ?thesis
    using Cons by simp
qed

lemma EraseSector_ok: "EraseSector offset fl = (None, fl @ [FlashErase offset])"
  by (simp add: EraseSector_def)

lemma erase_sector_eq:
  "erase_sector po sector s =
     (None, if sector < length (erasedSectors s) \<and> \<not> erasedSectors s ! sector
            then s\<lparr>flash := flash s @ [FlashErase (po + of_nat sector * SectorSize)],
                   erasedSectors := (erasedSectors s)[sector := True]\<rparr>
            else s)"
  by (simp add: erase_sector_def EraseSector_ok)

lemma erase_sectors_rx: "erase_sectors po a b s = (r, s') \<Longrightarrow> rx s' = rx s"
proof (induction po a b s rule: erase_sectors.induct)
  case (1 po sector endSector s)
  show ?case
  proof (cases "sector \<le> endSector")
    case True
    obtain s1 where s1: "erase_sector po sector s = (None, s1)" and rx1: "rx s1 = rx s"
      by (simp add: erase_sector_eq)
    from "1.prems" True s1 have "erase_sectors po (sector + 1) endSector s1 = (r, s')"
      by (simp add: erase_sectors.simps [of po sector])
    from "1.IH" [OF True s1 [symmetric] refl this] rx1 show ?thesis by simp
  next
    case False
    with "1.prems" show ?thesis by (simp add: erase_sectors.simps [of po sector])
  qed
qed

lemma handle_chunk_Continue:
  "handle_chunk po n s = Continue s' \<Longrightarrow> rx_size (rx s') \<le> rx_size (rx s)"
  by (auto simp: handle_chunk_def Let_def writeOTA_def WriteChunk_def
      split: if_splits option.splits prod.splits
      dest!: readExactly_size_le erase_sectors_rx)

lemma ota_iteration_Continue:
  "ota_iteration tp po s = Continue s' \<Longrightarrow> rx_size (rx s') < rx_size (rx s)"
proof -
  assume c: "ota_iteration tp po s = Continue s'"
  then obtain hdr rx' where r: "readExactly 4 [] (rx s) = Some (hdr, rx')"
    and h: "handle_chunk po (Uint32 hdr) (s\<lparr>rx := rx'\<rparr>) = Continue s'"
    by (auto simp: ota_iteration_def split: option.splits if_splits prod.splits)
  from readExactly_size [OF r] have "rx_size rx' < rx_size (rx s)" by simp
  moreover from handle_chunk_Continue [OF h] have "rx_size (rx s') \<le> rx_size rx'" by simp
  ultimately show ?thesis by simp
qed

text \<open>The receive loop \<open>for { ... }\<close> of \<open>handleOTASession\<close>.\<close>

function receive_loop :: "int \<Rightarrow> u32 \<Rightarrow> session \<Rightarrow> ending \<times> session" where
  "receive_loop targetPartition partitionOffset s =
     (case ota_iteration targetPartition partitionOffset s of
        Continue s' \<Rightarrow> receive_loop targetPartition partitionOffset s'
      | Stop e s' \<Rightarrow> (e, s'))"
  by pat_completeness auto
termination
  by (relation "measure (\<lambda>(tp, po, s). rx_size (rx s))") (auto simp: ota_iteration_Continue)

declare receive_loop.simps [simp del]

text \<open>
  The state in which a session starts (\<open>erasedSectors\<close>, \<open>totalBytes\<close>, \<open>hasher\<close> and
  \<open>chunkNum\<close> are local variables of \<open>handleOTASession\<close>), and the session itself:
  \<open>current\<close> is the partition the device runs from, \<open>segs\<close> what the client sends.
\<close>

definition new_session :: "byte list list \<Rightarrow> session" where
  "new_session segs = \<lparr>rx = segs, tx = [], hasher = [], totalBytes = 0, chunkNum = 0,
                        erasedSectors = replicate 512 False, flash = []\<rparr>"

definition handleOTASession :: "int \<Rightarrow> byte list list \<Rightarrow> ending \<times> session" where
  "handleOTASession current segs =
     (case readWithTimeout 128 segs of (buf, ok, rx') \<Rightarrow>
        if \<not> ok \<or> length buf < 3 then (NoInit, new_session rx')
        else if take 3 buf \<noteq> str ''OTA'' then (BadInit, new_session rx')
        else let s = writeOTA (str ''READY '' @ writeOTAInt otaMaxFwSize @ str ''\<newline>'')
                       (new_session rx');
                 targetPartition = GetTargetPartition current;
                 partitionOffset = GetPartitionOffset targetPartition
             in receive_loop targetPartition partitionOffset s)"


section \<open>The server loop\<close>

text \<open>
  One pass of the loop of \<open>otaServerLoop\<close>, from the end of the wait for a connection:
  the check of \<open>OTAIsEnabled()\<close> at time \<open>now\<close>, the check that the connection is
  synchronized, the session, and the \<open>OTADisable()\<close> that follows every session that
  returns. The result is how the session ended (\<open>None\<close> when the pass ran no session)
  and the access state left behind.
\<close>

definition otaServerLoop_pass ::
  "instant \<Rightarrow> bool \<Rightarrow> int \<Rightarrow> byte list list \<Rightarrow> ota_access \<Rightarrow> ending option \<times> ota_access" where
  "otaServerLoop_pass now synchronized current segs a =
     (case OTAIsEnabled now a of (enabled, a') \<Rightarrow>
        if \<not> enabled then (None, a')
        else if \<not> synchronized then (None, a')
        else (Some (fst (handleOTASession current segs)), OTADisable a'))"


section \<open>Notions used to state the results\<close>

text \<open>
  The offsets erased by a list of flash operations, in order; \<open>in_sector e a\<close> says that
  erasing the sector at offset \<open>e\<close> clears the flash byte at offset \<open>a\<close>.
\<close>

fun erase_offsets :: "flash_op list \<Rightarrow> u32 list" where
  "erase_offsets [] = []"
| "erase_offsets (FlashErase off # fl) = off # erase_offsets fl"
| "erase_offsets (FlashProgram off d # fl) = erase_offsets fl"

definition in_sector :: "u32 \<Rightarrow> nat \<Rightarrow> bool" where
  "in_sector e a = (unat e \<le> a \<and> a < unat e + unat SectorSize)"

text \<open>
  \<open>covered\<close>: every byte programmed lies in a sector erased earlier in the list.
  \<open>session_inv\<close> is the invariant of the receive loop: the bitmap has its 512 entries,
  the image fits, no offset was erased twice, the erased offsets are exactly the sectors
  marked in the bitmap, and every programmed byte was erased before.
\<close>

definition covered :: "flash_op list \<Rightarrow> bool" where
  "covered fl = (\<forall>pre off data post j. fl = pre @ FlashProgram off data # post \<longrightarrow> j < length data
       \<longrightarrow> (\<exists>x\<in>set (erase_offsets pre). in_sector x (unat off + j)))"

definition po_ok :: "u32 \<Rightarrow> bool" where
  "po_ok po = (unat po + 512 * 4096 < 2 ^ 32)"

definition session_inv :: "u32 \<Rightarrow> session \<Rightarrow> bool" where
  "session_inv po s =
     (length (erasedSectors s) = 512 \<and> unat (totalBytes s) \<le> 2031616
      \<and> distinct (erase_offsets (flash s))
      \<and> set (erase_offsets (flash s)) = (\<lambda>k. po + of_nat k * SectorSize) ` {k. k < 512 \<and> erasedSectors s ! k}
      \<and> covered (flash s))"

fun step_state :: "step \<Rightarrow> session" where
  "step_state (Continue s) = s"
| "step_state (Stop e s) = s"




section \<open>Access control: results\<close>

lemma time_Since_in_range:
  "minDuration \<le> now - t \<Longrightarrow> now - t \<le> maxDuration \<Longrightarrow> time_Since now t = now - t"
  by (simp add: time_Since_def)

text \<open>
  C7, as stated, fails when the elapsed time equals the timeout: the window enabled at
  time 0 with the default timeout is still reported enabled exactly ten minutes later,
  although the elapsed time is not strictly less than the timeout.
\<close>

theorem OTAIsEnabled_at_timeout_counterexample:
  "fst (OTAIsEnabled 600000000000 (OTAEnable 0 0 \<lparr>otaEnabled = False, otaEnabledAt = 0, otaTimeout = 0\<rparr>))
   \<and> \<not> (time_Since 600000000000 0 < otaDefaultTimeout)"
  by (simp add: OTAIsEnabled_def OTAEnable_def otaDefaultTimeout_def Minute_def time_Since_def
      maxDuration_def minDuration_def)

text \<open>
  C7, amended: \<open>OTAIsEnabled\<close> returns true exactly when the enabled flag is set and the
  time elapsed since the enable call is at most the configured timeout; expiry is
  evaluated at query time (the query clears the flag when it finds the window expired);
  after \<open>OTADisable\<close> the query is false at every time.
\<close>

theorem OTAIsEnabled_iff:
  "fst (OTAIsEnabled now a) = (otaEnabled a \<and> time_Since now (otaEnabledAt a) \<le> otaTimeout a)
   \<and> otaEnabled (snd (OTAIsEnabled now a)) = fst (OTAIsEnabled now a)
   \<and> fst (OTAIsEnabled now' (OTADisable a)) = False"
  by (auto simp: OTAIsEnabled_def OTADisable_def)


section \<open>Functional watchdog: results\<close>

lemma Duration_Hours_ge_12: "(Duration_Hours d \<ge> maxHoursWithoutRefresh) = (d \<ge> 12 * Hour)"
proof -
  have "(real_of_int d / real_of_int Hour \<ge> 12) = (real_of_int d \<ge> 12 * real_of_int Hour)"
    by (simp add: Hour_def Minute_def field_simps)
  also have "\<dots> = (d \<ge> 12 * Hour)"
    by linarith
  finally show ?thesis
    by (simp add: Duration_Hours_def maxHoursWithoutRefresh_def)
qed

lemma checkSystemHealth_healthy:
  "systemHealthy (checkSystemHealth now h) =
     (systemHealthy h \<and> consecutiveFailures h < 3 \<and> time_Since now (lastSuccessfulRefresh h) < 12 * Hour)"
  by (auto simp: checkSystemHealth_def Duration_Hours_ge_12 maxConsecutiveFailures_def)

lemma checkSystemHealth_fields:
  "consecutiveFailures (checkSystemHealth now h) = consecutiveFailures h"
  "lastSuccessfulRefresh (checkSystemHealth now h) = lastSuccessfulRefresh h"
  "watchdogUpdates (checkSystemHealth now h) = watchdogUpdates h"
  by (simp_all add: checkSystemHealth_def)

text \<open>
  C8: from a healthy state with no failure counted, while less than 12 hours have passed
  since the last success, the first and the second failure leave the flag true and the
  third sets it to false; a success after two failures leaves the flag true, resets the
  counter to zero and stores the time of the success.
\<close>

theorem three_failures_unhealthy:
  assumes "systemHealthy h" and "consecutiveFailures h = 0"
    and "time_Since t1 (lastSuccessfulRefresh h) < 12 * Hour"
    and "time_Since t2 (lastSuccessfulRefresh h) < 12 * Hour"
    and "time_Since t3 (lastSuccessfulRefresh h) < 12 * Hour"
  shows "systemHealthy (refresh_failed t1 h)
       \<and> systemHealthy (refresh_failed t2 (refresh_failed t1 h))
       \<and> \<not> systemHealthy (refresh_failed t3 (refresh_failed t2 (refresh_failed t1 h)))
       \<and> systemHealthy (refresh_succeeded t3 (refresh_failed t2 (refresh_failed t1 h)))
       \<and> consecutiveFailures (refresh_succeeded t3 (refresh_failed t2 (refresh_failed t1 h))) = 0
       \<and> lastSuccessfulRefresh (refresh_succeeded t3 (refresh_failed t2 (refresh_failed t1 h))) = t3"
  using assms
  by (simp add: refresh_failed_def refresh_succeeded_def checkSystemHealth_healthy
      checkSystemHealth_fields)

theorem three_failures_unhealthy_witness:
  "\<not> systemHealthy (refresh_failed 3 (refresh_failed 2 (refresh_failed 1
       \<lparr>lastSuccessfulRefresh = 0, consecutiveFailures = 0, systemHealthy = True, watchdogUpdates = 0\<rparr>)))
   \<and> systemHealthy (refresh_succeeded 3 (refresh_failed 2 (refresh_failed 1
       \<lparr>lastSuccessfulRefresh = 0, consecutiveFailures = 0, systemHealthy = True, watchdogUpdates = 0\<rparr>)))"
  using three_failures_unhealthy [of
      "\<lparr>lastSuccessfulRefresh = 0, consecutiveFailures = 0, systemHealthy = True, watchdogUpdates = 0\<rparr>"
      1 2 3]
  by (simp add: time_Since_def maxDuration_def minDuration_def Hour_def Minute_def)

lemma health_do_unhealthy:
  "\<not> systemHealthy h \<Longrightarrow>
     \<not> systemHealthy (health_do s h) \<and> watchdogUpdates (health_do s h) = watchdogUpdates h"
  by (cases s)
     (simp_all add: feedWatchdogIfHealthy_def refresh_failed_def refresh_succeeded_def
        fatalError_def checkSystemHealth_healthy checkSystemHealth_fields)

text \<open>
  C9: once \<open>systemHealthy\<close> is false, no later step of the program calls
  \<open>machine.Watchdog.Update()\<close> and none sets the flag back to true, whatever the steps
  are (successful refreshes included).
\<close>

theorem unhealthy_is_permanent:
  "\<not> systemHealthy h \<Longrightarrow>
     \<not> systemHealthy (health_run steps h) \<and> watchdogUpdates (health_run steps h) = watchdogUpdates h"
proof (induction steps arbitrary: h)
  case Nil
  then show ?case by simp
next
  case (Cons s steps)
  from Cons.prems have step: "\<not> systemHealthy (health_do s h)"
    and same: "watchdogUpdates (health_do s h) = watchdogUpdates h"
    using health_do_unhealthy by blast+
  from Cons.IH [OF step] same show ?case by simp
qed

theorem unhealthy_is_permanent_witness:
  "\<not> systemHealthy (health_run [FeedWatchdogIfHealthy, RefreshSucceeded 5, FeedWatchdogIfHealthy]
       (fatalError \<lparr>lastSuccessfulRefresh = 0, consecutiveFailures = 0, systemHealthy = True, watchdogUpdates = 7\<rparr>))
   \<and> watchdogUpdates (health_run [FeedWatchdogIfHealthy, RefreshSucceeded 5, FeedWatchdogIfHealthy]
       (fatalError \<lparr>lastSuccessfulRefresh = 0, consecutiveFailures = 0, systemHealthy = True, watchdogUpdates = 7\<rparr>)) = 7"
  using unhealthy_is_permanent [of
      "fatalError \<lparr>lastSuccessfulRefresh = 0, consecutiveFailures = 0, systemHealthy = True, watchdogUpdates = 7\<rparr>"
      "[FeedWatchdogIfHealthy, RefreshSucceeded 5, FeedWatchdogIfHealthy]"]
  by (simp add: fatalError_def)

section \<open>The OTA session: one iteration\<close>

lemma trimSpace_empty_iff: "(trimSpace s = []) = (\<forall>c\<in>set s. is_space c)"
proof -
  have "(trimSpace s = []) = (\<forall>c\<in>set (dropWhile is_space s). is_space c)"
    by (simp add: trimSpace_def dropWhile_eq_Nil_conv)
  also have "\<dots> = (dropWhile is_space s = [])"
  proof
    assume a: "\<forall>c\<in>set (dropWhile is_space s). is_space c"
    show "dropWhile is_space s = []"
    proof (rule ccontr)
      assume ne: "dropWhile is_space s \<noteq> []"
      then have "\<not> is_space (hd (dropWhile is_space s))" by (rule hd_dropWhile)
      moreover from ne have "hd (dropWhile is_space s) \<in> set (dropWhile is_space s)" by simp
      ultimately show False using a by blast
    qed
  next
    assume e: "dropWhile is_space s = []"
    show "\<forall>c\<in>set (dropWhile is_space s). is_space c" unfolding e by simp
  qed
  also have "\<dots> = (\<forall>c\<in>set s. is_space c)"
    by (simp add: dropWhile_eq_Nil_conv)
  finally show ?thesis .
qed

lemma trimSpace_drop_empty: "trimSpace s = [] \<Longrightarrow> trimSpace (drop n s) = []"
  by (auto simp: trimSpace_empty_iff dest: in_set_dropD)

lemma str_DONE_length: "length (str ''DONE'') = 4"
  by (simp add: str_def)

lemma expected_hash_eq:
  "(if length (str ''DONE'' @ rest) > 5 then trimSpace (drop 5 (str ''DONE'' @ rest)) else [])
     = trimSpace (drop 1 rest)"
  by (cases rest; cases "tl rest") (auto simp: str_def trimSpace_def)

lemma receive_loop_done:
  assumes hdr: "readExactly 4 [] (rx s) = Some (str ''DONE'', rx1)"
    and rest: "readWithTimeout 124 rx1 = (rest, ok, rx2)"
  shows "receive_loop tp po s =
     (if trimSpace (drop 1 rest) \<noteq> [] \<and> trimSpace (drop 1 rest) \<noteq> formatHashHex (sha256 (hasher s))
      then (HashMismatch, s\<lparr>rx := rx2, tx := tx s @ str ''ERROR hash mismatch\<newline>''\<rparr>)
      else (RebootToPartition tp, s\<lparr>rx := rx2, tx := tx s @ str ''VERIFIED\<newline>''\<rparr>))"
proof -
  have "handle_done tp (s\<lparr>rx := rx1\<rparr>) =
     (if trimSpace (drop 1 rest) \<noteq> [] \<and> trimSpace (drop 1 rest) \<noteq> formatHashHex (sha256 (hasher s))
      then (HashMismatch, s\<lparr>rx := rx2, tx := tx s @ str ''ERROR hash mismatch\<newline>''\<rparr>)
      else (RebootToPartition tp, s\<lparr>rx := rx2, tx := tx s @ str ''VERIFIED\<newline>''\<rparr>))"
    unfolding handle_done_def Let_def expected_hash_eq
    by (simp add: rest writeOTA_def)
  then show ?thesis
    by (simp add: receive_loop.simps [of tp po s] ota_iteration_def hdr split: if_splits)
qed

lemma receive_loop_chunk_too_large:
  assumes hdr: "readExactly 4 [] (rx s) = Some (hdr, rx1)" and nd: "hdr \<noteq> str ''DONE''"
    and big: "Uint32 hdr > 4160"
  shows "receive_loop tp po s =
     (ChunkTooLarge, s\<lparr>rx := rx1, tx := tx s @ str ''ERROR chunk too large\<newline>''\<rparr>)"
  using nd big
  by (simp add: receive_loop.simps [of tp po s] ota_iteration_def hdr handle_chunk_def
      otaBufSize_def writeOTA_def)



section \<open>The OTA session: sectors\<close>

lemma erase_offsets_append: "erase_offsets (a @ b) = erase_offsets a @ erase_offsets b"
  by (induction a rule: erase_offsets.induct) simp_all

lemma covered_Nil: "covered []"
  by (simp add: covered_def)

lemma covered_erase: "covered fl \<Longrightarrow> covered (fl @ [FlashErase x])"
proof (unfold covered_def, intro allI impI)
  fix pre off data post j
  assume c: "\<forall>pre off data post j. fl = pre @ FlashProgram off data # post \<longrightarrow> j < length data
       \<longrightarrow> (\<exists>x\<in>set (erase_offsets pre). in_sector x (unat off + j))"
    and eq: "fl @ [FlashErase x] = pre @ FlashProgram off data # post" and j: "j < length data"
  show "\<exists>x\<in>set (erase_offsets pre). in_sector x (unat off + j)"
  proof (cases post rule: rev_cases)
    case Nil
    with eq show ?thesis by simp
  next
    case (snoc ys y)
    with eq have "fl = pre @ FlashProgram off data # ys" by simp
    with c j show ?thesis by blast
  qed
qed

lemma covered_program:
  assumes c: "covered fl"
    and new: "\<forall>j<length data. \<exists>x\<in>set (erase_offsets fl). in_sector x (unat off + j)"
  shows "covered (fl @ [FlashProgram off data])"
proof (unfold covered_def, intro allI impI)
  fix pre off' data' post j
  assume eq: "fl @ [FlashProgram off data] = pre @ FlashProgram off' data' # post"
    and j: "j < length data'"
  show "\<exists>x\<in>set (erase_offsets pre). in_sector x (unat off' + j)"
  proof (cases post rule: rev_cases)
    case Nil
    with eq have "pre = fl" "off' = off" "data' = data" by simp_all
    with new j show ?thesis by simp
  next
    case (snoc ys y)
    with eq have "fl = pre @ FlashProgram off' data' # ys" by simp
    with c j show ?thesis unfolding covered_def by blast
  qed
qed

lemma unat_sector_offset:
  assumes "po_ok po" and "k < 512"
  shows "unat (po + of_nat k * SectorSize) = unat po + k * 4096"
proof -
  have k: "unat (of_nat k :: u32) = k"
    using assms(2) by (simp add: unat_of_nat)
  have "unat (of_nat k * SectorSize :: u32) = k * 4096"
    using assms(2) k by (simp add: unat_mult_lem [THEN iffD1] SectorSize_def)
  moreover have "unat po + k * 4096 < 2 ^ 32"
    using assms by (simp add: po_ok_def)
  ultimately show ?thesis
    by (simp add: unat_add_lem [THEN iffD1])
qed

lemma sector_offset_inj:
  assumes "po_ok po" "k < 512" "k' < 512"
    and "po + of_nat k * SectorSize = po + of_nat k' * SectorSize"
  shows "k = k'"
proof -
  from assms(4) have "unat (po + of_nat k * SectorSize) = unat (po + of_nat k' * SectorSize)"
    by simp
  with assms(1-3) show ?thesis by (simp add: unat_sector_offset)
qed


lemma erase_sector_inv:
  assumes ok: "po_ok po" and inv: "session_inv po s"
  shows "session_inv po (snd (erase_sector po k s))"
proof (cases "k < length (erasedSectors s) \<and> \<not> erasedSectors s ! k")
  case False
  with inv show ?thesis by (auto simp: erase_sector_eq)
next
  case True
  let ?x = "po + of_nat k * SectorSize"
  let ?E = "{i. i < 512 \<and> erasedSectors s ! i}"
  from inv have len: "length (erasedSectors s) = 512"
    and tb: "unat (totalBytes s) \<le> 2031616"
    and dist: "distinct (erase_offsets (flash s))"
    and set_eq: "set (erase_offsets (flash s)) = (\<lambda>i. po + of_nat i * SectorSize) ` ?E"
    and cov: "covered (flash s)"
    by (simp_all add: session_inv_def)
  from True len have k: "k < 512" and nk: "\<not> erasedSectors s ! k" by simp_all
  have fresh: "?x \<notin> set (erase_offsets (flash s))"
  proof
    assume "?x \<in> set (erase_offsets (flash s))"
    with set_eq obtain i where i: "i < 512" "erasedSectors s ! i"
      and eq: "?x = po + of_nat i * SectorSize" by auto
    from sector_offset_inj [OF ok k i(1) eq] i(2) nk show False by simp
  qed
  have "{i. i < 512 \<and> (erasedSectors s)[k := True] ! i} = insert k ?E"
    using k len by (auto simp: nth_list_update)
  then have set': "set (erase_offsets (flash s @ [FlashErase ?x]))
      = (\<lambda>i. po + of_nat i * SectorSize) ` {i. i < 512 \<and> (erasedSectors s)[k := True] ! i}"
    using set_eq by (simp add: erase_offsets_append)
  from True have st: "snd (erase_sector po k s)
      = s\<lparr>flash := flash s @ [FlashErase ?x], erasedSectors := (erasedSectors s)[k := True]\<rparr>"
    by (simp add: erase_sector_eq)
  show ?thesis
    unfolding st session_inv_def
    using len tb dist fresh set' covered_erase [OF cov]
    by (simp add: erase_offsets_append)
qed

lemma erase_sector_marks:
  assumes "length (erasedSectors s) = 512"
  shows "k < 512 \<Longrightarrow> erasedSectors (snd (erase_sector po k s)) ! k"
    and "i < 512 \<Longrightarrow> erasedSectors s ! i \<Longrightarrow> erasedSectors (snd (erase_sector po k s)) ! i"
    and "totalBytes (snd (erase_sector po k s)) = totalBytes s"
    and "hasher (snd (erase_sector po k s)) = hasher s"
    and "tx (snd (erase_sector po k s)) = tx s"
  using assms by (auto simp: erase_sector_eq nth_list_update)

lemma erase_sectors_inv:
  "po_ok po \<Longrightarrow> session_inv po s \<Longrightarrow> erase_sectors po a b s = (r, s') \<Longrightarrow>
     r = None \<and> session_inv po s' \<and> totalBytes s' = totalBytes s
     \<and> (\<forall>i<512. erasedSectors s ! i \<longrightarrow> erasedSectors s' ! i)
     \<and> (\<forall>i<512. a \<le> i \<and> i \<le> b \<longrightarrow> erasedSectors s' ! i)"
proof (induction po a b s rule: erase_sectors.induct)
  case (1 po sector endSector s)
  note ok = "1.prems"(1) and inv = "1.prems"(2) and run = "1.prems"(3)
  show ?case
  proof (cases "sector \<le> endSector")
    case False
    with inv run show ?thesis by (auto simp: erase_sectors.simps [of po sector])
  next
    case True
    define s1 where "s1 = snd (erase_sector po sector s)"
    have s1: "erase_sector po sector s = (None, s1)"
      by (simp add: s1_def erase_sector_eq)
    from inv have len: "length (erasedSectors s) = 512"
      by (simp add: session_inv_def)
    have inv1: "session_inv po s1"
      unfolding s1_def using ok inv by (rule erase_sector_inv)
    from run True s1 have rec: "erase_sectors po (sector + 1) endSector s1 = (r, s')"
      by (simp add: erase_sectors.simps [of po sector])
    from "1.IH" [OF True s1 [symmetric] refl ok inv1 rec]
    have r: "r = None" and inv': "session_inv po s'" and tb: "totalBytes s' = totalBytes s1"
      and keep: "\<forall>i<512. erasedSectors s1 ! i \<longrightarrow> erasedSectors s' ! i"
      and rng: "\<forall>i<512. sector + 1 \<le> i \<and> i \<le> endSector \<longrightarrow> erasedSectors s' ! i"
      by simp_all
    have "\<forall>i<512. sector \<le> i \<and> i \<le> endSector \<longrightarrow> erasedSectors s' ! i"
    proof (intro allI impI)
      fix i assume i: "i < 512" and "sector \<le> i \<and> i \<le> endSector"
      then consider "i = sector" | "sector + 1 \<le> i \<and> i \<le> endSector" by linarith
      then show "erasedSectors s' ! i"
      proof cases
        case 1
        with i erase_sector_marks(1) [OF len, of sector po] keep show ?thesis
          by (simp add: s1_def)
      next
        case 2
        with i rng show ?thesis by simp
      qed
    qed
    moreover have "\<forall>i<512. erasedSectors s ! i \<longrightarrow> erasedSectors s' ! i"
      using keep erase_sector_marks(2) [OF len, of _ po sector] by (simp add: s1_def)
    moreover have "totalBytes s' = totalBytes s"
      using tb erase_sector_marks(3) [OF len, of po sector] by (simp add: s1_def)
    ultimately show ?thesis using r inv' by simp
  qed
qed


lemma readExactly_length:
  "readExactly needed got segs = Some (data, segs') \<Longrightarrow> length got \<le> needed \<Longrightarrow> length data = needed"
proof (induction needed got segs rule: readExactly.induct)
  case (1 needed got)
  then show ?case by (simp split: if_splits)
next
  case (2 needed got seg rest)
  show ?case
  proof (cases "length got < needed")
    case True
    let ?k = "needed - length got"
    let ?segs = "if drop ?k seg = [] then rest else drop ?k seg # rest"
    from True "2.prems" have "readExactly needed (got @ take ?k seg) ?segs = Some (data, segs')"
      by simp
    moreover from True have "length (got @ take ?k seg) \<le> needed" by simp
    ultimately show ?thesis by (rule "2.IH" [OF True])
  next
    case False
    with "2.prems" show ?thesis by simp
  qed
qed

lemma session_inv_cong:
  "erasedSectors s' = erasedSectors s \<Longrightarrow> flash s' = flash s \<Longrightarrow> totalBytes s' = totalBytes s
     \<Longrightarrow> session_inv po s' = session_inv po s"
  by (simp add: session_inv_def)

lemma unat_SectorSize: "unat SectorSize = 4096"
  by (simp add: SectorSize_def)

lemma chunk_sectors:
  assumes ok: "po_ok po" and le: "unat tb + unat n \<le> 2031616" and j: "j < unat n"
  defines "k \<equiv> (unat tb + j) div 4096"
  shows "unat (tb div SectorSize) \<le> k" and "k \<le> unat ((tb + n - 1) div SectorSize)"
    and "k < 512" and "in_sector (po + of_nat k * SectorSize) (unat (po + tb) + j)"
proof -
  show "unat (tb div SectorSize) \<le> k"
    by (simp add: unat_div unat_SectorSize k_def div_le_mono)
  from le have sum: "unat (tb + n) = unat tb + unat n"
    by (simp add: unat_add_lem [THEN iffD1])
  have "unat (tb + n) \<noteq> 0" using sum j by simp
  then have "tb + n \<noteq> 0" by (metis unat_0)
  then have "unat (tb + n - 1) = unat tb + unat n - 1"
    using sum by (simp add: unat_minus_one)
  then have e: "unat ((tb + n - 1) div SectorSize) = (unat tb + unat n - 1) div 4096"
    by (simp add: unat_div unat_SectorSize)
  from j have "unat tb + j \<le> unat tb + unat n - 1" by simp
  then show "k \<le> unat ((tb + n - 1) div SectorSize)"
    unfolding e k_def by (rule div_le_mono)
  have "unat tb + j < 512 * 4096" using le j by simp
  then show k512: "k < 512" unfolding k_def by (simp add: less_mult_imp_div_less)
  from ok le have pt: "unat (po + tb) = unat po + unat tb"
    by (simp add: unat_add_lem [THEN iffD1] po_ok_def)
  have lo: "k * 4096 \<le> unat tb + j"
    unfolding k_def by simp
  have "unat tb + j = k * 4096 + (unat tb + j) mod 4096"
    unfolding k_def by simp
  moreover have "(unat tb + j) mod 4096 < 4096" by simp
  ultimately have hi: "unat tb + j < k * 4096 + 4096" by linarith
  show "in_sector (po + of_nat k * SectorSize) (unat (po + tb) + j)"
    unfolding in_sector_def unat_sector_offset [OF ok k512] pt unat_SectorSize
    using lo hi by simp
qed

lemma po_ok_partitions: "po_ok (GetPartitionOffset p)"
  by (simp add: po_ok_def GetPartitionOffset_def)

lemma session_inv_new: "session_inv po (new_session segs)"
  by (simp add: session_inv_def new_session_def covered_Nil)

lemma handle_chunk_inv:
  assumes ok: "po_ok po" and inv: "session_inv po s"
  shows "session_inv po (step_state (handle_chunk po n s))"
proof (cases "n > of_nat otaBufSize \<or> totalBytes s + n > word_of_int otaMaxFwSize")
  case True
  have "session_inv po (writeOTA b s) = session_inv po s" for b
    by (rule session_inv_cong) (simp_all add: writeOTA_def)
  with True inv show ?thesis by (auto simp: handle_chunk_def)
next
  case False
  then have n_le: "unat n \<le> 4160" and "totalBytes s + n \<le> 2031616"
    by (simp_all add: otaBufSize_def otaMaxFwSize_def word_le_nat_alt not_less)
  moreover from inv have tb: "unat (totalBytes s) \<le> 2031616" by (simp add: session_inv_def)
  ultimately have le: "unat (totalBytes s) + unat n \<le> 2031616"
    by (simp add: word_le_nat_alt unat_add_lem [THEN iffD1])
  show ?thesis
  proof (cases "readExactly (unat n) [] (rx s)")
    case None
    have "session_inv po (s\<lparr>rx := []\<rparr>) = session_inv po s"
      by (rule session_inv_cong) simp_all
    with None False inv show ?thesis by (simp add: handle_chunk_def)
  next
    case (Some r)
    obtain data rx' where r: "r = (data, rx')" by (cases r)
    from Some r have len: "length data = unat n"
      by (auto dest: readExactly_length)
    define s1 where "s1 = s\<lparr>rx := rx', hasher := hasher s @ data\<rparr>"
    have "session_inv po s1 = session_inv po s"
      by (rule session_inv_cong) (simp_all add: s1_def)
    with inv have inv1: "session_inv po s1" by simp
    have tb1: "totalBytes s1 = totalBytes s" by (simp add: s1_def)
    obtain e s2 where run: "erase_sectors po (unat (totalBytes s1 div SectorSize))
        (unat ((totalBytes s1 + n - 1) div SectorSize)) s1 = (e, s2)"
      by (cases "erase_sectors po (unat (totalBytes s1 div SectorSize))
        (unat ((totalBytes s1 + n - 1) div SectorSize)) s1")
    from erase_sectors_inv [OF ok inv1 run]
    have e: "e = None" and inv2: "session_inv po s2" and tb2: "totalBytes s2 = totalBytes s"
      and rng: "\<forall>i<512. unat (totalBytes s div SectorSize) \<le> i
                  \<and> i \<le> unat ((totalBytes s + n - 1) div SectorSize) \<longrightarrow> erasedSectors s2 ! i"
      by (simp_all add: tb1)
    define fl where "fl = (if length data = 0 then flash s2
                           else flash s2 @ [FlashProgram (po + totalBytes s) data])"
    define s3 where "s3 = s2\<lparr>flash := fl, totalBytes := totalBytes s2 + n, chunkNum := chunkNum s2 + 1\<rparr>"
    have res: "handle_chunk po n s =
        Continue (writeOTA (str ''ACK '' @ writeOTAInt (sint (totalBytes s3)) @ str ''\<newline>'') s3)"
      using False Some r run e
      by (simp add: handle_chunk_def Let_def s1_def [symmetric] tb1 WriteChunk_def s3_def fl_def)
    have cov: "covered fl"
    proof (cases "length data = 0")
      case True
      with inv2 show ?thesis by (simp add: fl_def session_inv_def)
    next
      case nz: False
      have "\<forall>j<length data. \<exists>x\<in>set (erase_offsets (flash s2)).
              in_sector x (unat (po + totalBytes s) + j)"
      proof (intro allI impI)
        fix j assume "j < length data"
        with len have j: "j < unat n" by simp
        let ?k = "(unat (totalBytes s) + j) div 4096"
        note cs = chunk_sectors [OF ok le j]
        from rng cs(1,2,3) have "erasedSectors s2 ! ?k" by simp
        with cs(3) inv2 have "po + of_nat ?k * SectorSize \<in> set (erase_offsets (flash s2))"
          by (auto simp: session_inv_def)
        with cs(4) show "\<exists>x\<in>set (erase_offsets (flash s2)).
              in_sector x (unat (po + totalBytes s) + j)" by blast
      qed
      with inv2 nz show ?thesis
        by (simp add: fl_def session_inv_def covered_program)
    qed
    have eo: "erase_offsets fl = erase_offsets (flash s2)"
      by (simp add: fl_def erase_offsets_append)
    have "unat (totalBytes s + n) \<le> 2031616"
      using le by (simp add: unat_add_lem [THEN iffD1])
    with inv2 cov eo have "session_inv po s3"
      by (simp add: session_inv_def s3_def tb2)
    moreover have "session_inv po (writeOTA b s3) = session_inv po s3" for b
      by (rule session_inv_cong) (simp_all add: writeOTA_def)
    ultimately show ?thesis by (simp add: res)
  qed
qed

lemma ota_iteration_inv:
  assumes ok: "po_ok po" and inv: "session_inv po s"
  shows "session_inv po (step_state (ota_iteration tp po s))"
proof (cases "readExactly 4 [] (rx s)")
  case None
  have "session_inv po (s\<lparr>rx := []\<rparr>) = session_inv po s"
    by (rule session_inv_cong) simp_all
  with None inv show ?thesis by (simp add: ota_iteration_def)
next
  case (Some r)
  obtain hdr rx' where r: "r = (hdr, rx')" by (cases r)
  have "session_inv po (s\<lparr>rx := rx'\<rparr>) = session_inv po s"
    by (rule session_inv_cong) simp_all
  with inv have inv1: "session_inv po (s\<lparr>rx := rx'\<rparr>)" by simp
  show ?thesis
  proof (cases "hdr = str ''DONE''")
    case True
    have "session_inv po (snd (handle_done tp (s\<lparr>rx := rx'\<rparr>))) = session_inv po (s\<lparr>rx := rx'\<rparr>)"
      by (rule session_inv_cong)
         (simp_all add: handle_done_def Let_def writeOTA_def split: prod.splits)
    with inv1 True Some r show ?thesis
      by (auto simp: ota_iteration_def split: prod.splits)
  next
    case False
    with Some r handle_chunk_inv [OF ok inv1] show ?thesis
      by (simp add: ota_iteration_def)
  qed
qed

lemma receive_loop_inv:
  "po_ok po \<Longrightarrow> session_inv po s \<Longrightarrow> session_inv po (snd (receive_loop tp po s))"
proof (induction tp po s rule: receive_loop.induct)
  case (1 tp po s)
  from ota_iteration_inv [OF "1.prems"] have st: "session_inv po (step_state (ota_iteration tp po s))" .
  show ?case
  proof (cases "ota_iteration tp po s")
    case (Continue s')
    with st have "session_inv po s'" by simp
    from "1.IH" [OF Continue "1.prems"(1) this] Continue show ?thesis
      by (simp add: receive_loop.simps [of tp po s])
  next
    case (Stop e s')
    with st show ?thesis by (simp add: receive_loop.simps [of tp po s])
  qed
qed

lemma handleOTASession_inv:
  "session_inv (GetPartitionOffset (GetTargetPartition current)) (snd (handleOTASession current segs))"
proof -
  let ?po = "GetPartitionOffset (GetTargetPartition current)"
  have w: "session_inv ?po (writeOTA b (new_session r))" for b r
    using session_inv_new [of ?po r] by (simp add: session_inv_def writeOTA_def)
  show ?thesis
    unfolding handleOTASession_def
    by (auto simp: Let_def session_inv_new split: prod.splits
        intro!: receive_loop_inv po_ok_partitions w)
qed

lemma sector_bounds_unique:
  fixes k k' a b :: nat
  assumes "b + k * 4096 \<le> a" "a < b + k * 4096 + 4096" "b + k' * 4096 \<le> a" "a < b + k' * 4096 + 4096"
  shows "k = k'"
proof -
  have "k = (a - b) div 4096" using assms(1,2)
    by (intro div_nat_eqI [symmetric]) (simp_all add: algebra_simps)
  moreover have "k' = (a - b) div 4096" using assms(3,4)
    by (intro div_nat_eqI [symmetric]) (simp_all add: algebra_simps)
  ultimately show ?thesis by simp
qed

lemma in_sector_unique:
  assumes ok: "po_ok po" and k: "k < 512" "k' < 512"
    and a: "in_sector (po + of_nat k * SectorSize) a" "in_sector (po + of_nat k' * SectorSize) a"
  shows "k = k'"
  using a unfolding in_sector_def unat_sector_offset [OF ok k(1)] unat_sector_offset [OF ok k(2)]
    unat_SectorSize
  by (intro sector_bounds_unique [of "unat po" k a k']) simp_all

lemma filter_single:
  "distinct xs \<Longrightarrow> x \<in> set xs \<Longrightarrow> P x \<Longrightarrow> (\<forall>y\<in>set xs. P y \<longrightarrow> y = x) \<Longrightarrow> filter P xs = [x]"
proof (induction xs)
  case Nil
  then show ?case by simp
next
  case (Cons y ys)
  from Cons.prems(1) have dys: "distinct ys" and yn: "y \<notin> set ys" by simp_all
  from Cons.prems(4) have all: "\<forall>z\<in>set ys. P z \<longrightarrow> z = x" and py: "P y \<longrightarrow> y = x" by simp_all
  show ?case
  proof (cases "y = x")
    case True
    with yn all have "\<forall>z\<in>set ys. \<not> P z" by blast
    then have "filter P ys = []" by (simp only: filter_empty_conv)
    with True Cons.prems(3) show ?thesis by simp
  next
    case False
    with py have npy: "\<not> P y" by blast
    from False Cons.prems(2) have "x \<in> set ys" by simp
    from Cons.IH [OF dys this Cons.prems(3) all] npy show ?thesis by simp
  qed
qed

section \<open>Evaluating sessions\<close>

text \<open>
  The padded message is a whole number of 64-byte blocks, whatever its length. Test
  vectors for SHA-256, in hexadecimal: the empty message, \<open>abc\<close>, and 56 bytes of
  \<open>0x07\<close>, whose padding takes a second block.
\<close>

lemma sha_pad_aligned: "length (sha_pad m) mod 64 = 0"
proof -
  define r where "r = length m mod 64"
  have r: "r < 64" by (simp add: r_def)
  have l: "length m = 64 * (length m div 64) + r" by (simp add: r_def)
  have "length (sha_pad m) = length m + 1 + ((if r < 56 then 56 - r else 64 + 56 - r) - 1) + 8"
    by (simp add: sha_pad_def Let_def r_def)
  also have "\<dots> = 64 * (length m div 64) + (if r < 56 then 64 else 128)"
    using r by (subst l) (simp split: if_splits)
  finally show ?thesis by (simp split: if_splits)
qed


lemma hex_sha256_abc:
  "formatHashHex (sha256 (str ''abc'')) =
     str ''ba7816bf8f01cfea414140de5dae2223b00361a396177a9cb410ff61f20015ad''"
  by code_simp


lemmas session_eval = handleOTASession_def Let_def new_session_def writeOTA_def
  GetTargetPartition_def GetPartitionOffset_def PartitionA_def PartitionB_def
  receive_loop.simps ota_iteration_def handle_done_def handle_chunk_def
  otaBufSize_def otaMaxFwSize_def SectorSize_def WriteChunk_def
  erase_sectors.simps erase_sector_eq writeOTAInt_def writeOTAInt_loop.simps
  trimSpace_def is_space_def str_def

text \<open>
  A session on a device running from partition A: the handshake, then one chunk whose
  length field is 4100 and its 4100 bytes, then nothing more.
\<close>

lemma session_4100:
  "handleOTASession 0 [str ''OTA\<newline>'', [0x04, 0x10, 0, 0], replicate 4100 7]
   = (ReadTimeout, \<lparr>rx = [], tx = str ''READY 2031616\<newline>ACK 4100\<newline>'',
        hasher = replicate 4100 7, totalBytes = 4100, chunkNum = 1,
        erasedSectors = (replicate 512 False)[0 := True, 1 := True],
        flash = [FlashErase 0x1F2000, FlashErase 0x1F3000,
                 FlashProgram 0x1F2000 (replicate 4100 7)]\<rparr>)"
  by (simp add: session_eval)


section \<open>The OTA session: results\<close>




text \<open>
  C2: when the bytes that follow \<open>DONE\<close> trim to the empty string (or nothing follows
  before the read times out), the digest is not compared: whatever has been received and
  hashed, the server replies \<open>VERIFIED\<close> and goes on to the call of \<open>RebootToPartition\<close>.
\<close>

theorem done_without_digest_reboots:
  assumes "readExactly 4 [] (rx s) = Some (str ''DONE'', rx1)"
    and "readWithTimeout 124 rx1 = (rest, ok, rx2)"
    and "trimSpace rest = []"
  shows "receive_loop tp po s =
     (RebootToPartition tp, s\<lparr>rx := rx2, tx := tx s @ str ''VERIFIED\<newline>''\<rparr>)"
  using trimSpace_drop_empty [OF assms(3), of 1]
  by (simp add: receive_loop_done [OF assms(1,2)])

theorem done_without_digest_reboots_witness:
  "receive_loop 1 0x1F2000 ((new_session [str ''DONE\<newline>''])\<lparr>hasher := [1, 2, 3], totalBytes := 3\<rparr>)
     = (RebootToPartition 1,
        (new_session [])\<lparr>hasher := [1, 2, 3], totalBytes := 3, tx := str ''VERIFIED\<newline>''\<rparr>)"
proof -
  let ?s = "(new_session [str ''DONE\<newline>''])\<lparr>hasher := [1, 2, 3], totalBytes := 3\<rparr>"
  have h1: "readExactly 4 [] (rx ?s) = Some (str ''DONE'', [str ''\<newline>''])"
    by (simp add: new_session_def str_def)
  have h2: "readWithTimeout 124 [str ''\<newline>''] = (str ''\<newline>'', True, [])"
    by (simp add: str_def)
  have h3: "trimSpace (str ''\<newline>'') = []"
    by (simp add: str_def trimSpace_def is_space_def)
  from done_without_digest_reboots [OF h1 h2 h3, of 1 "0x1F2000"]
  show ?thesis by (simp add: new_session_def)
qed

text \<open>
  C3 fails on the code: \<open>otaServerLoop\<close> calls \<open>OTADisable()\<close> after every session that
  returns. With the window enabled at time 0 for the default ten minutes, a client that
  connects one second later and sends a malformed handshake leaves the window disabled:
  one second after that, with 598 seconds of the window remaining, \<open>OTAIsEnabled()\<close> is
  false.
\<close>

theorem failed_session_disables_window:
  "fst (OTAIsEnabled 1000000000 (OTAEnable 0 0 \<lparr>otaEnabled = False, otaEnabledAt = 0, otaTimeout = 0\<rparr>))
   \<and> fst (otaServerLoop_pass 1000000000 True 0 [str ''XYZ\<newline>'']
         (OTAEnable 0 0 \<lparr>otaEnabled = False, otaEnabledAt = 0, otaTimeout = 0\<rparr>)) = Some BadInit
   \<and> \<not> fst (OTAIsEnabled 2000000000 (snd (otaServerLoop_pass 1000000000 True 0 [str ''XYZ\<newline>'']
         (OTAEnable 0 0 \<lparr>otaEnabled = False, otaEnabledAt = 0, otaTimeout = 0\<rparr>))))
   \<and> OTATimeRemaining 2000000000 (OTAEnable 0 0 \<lparr>otaEnabled = False, otaEnabledAt = 0, otaTimeout = 0\<rparr>)
       = 598000000000"
  by (simp add: otaServerLoop_pass_def OTAIsEnabled_def OTAEnable_def OTADisable_def
      OTATimeRemaining_def otaDefaultTimeout_def Minute_def time_Since_def maxDuration_def
      minDuration_def handleOTASession_def str_def)





text \<open>
  C5, as stated, fails between 4097 and 4160: the bound checked is the size of the chunk
  buffer, \<open>len(otaChunk)\<close> = 4096 + 64. A chunk whose length field is 4100 is accepted,
  hashed, programmed and acknowledged.
\<close>

theorem chunk_of_4100_accepted_counterexample:
  "Uint32 [0x04, 0x10, 0, 0] = 4100
   \<and> tx (snd (handleOTASession 0 [str ''OTA\<newline>'', [0x04, 0x10, 0, 0], replicate 4100 7]))
       = str ''READY 2031616\<newline>ACK 4100\<newline>''
   \<and> hasher (snd (handleOTASession 0 [str ''OTA\<newline>'', [0x04, 0x10, 0, 0], replicate 4100 7]))
       = replicate 4100 7
   \<and> flash (snd (handleOTASession 0 [str ''OTA\<newline>'', [0x04, 0x10, 0, 0], replicate 4100 7]))
       = [FlashErase 0x1F2000, FlashErase 0x1F3000, FlashProgram 0x1F2000 (replicate 4100 7)]"
  by (simp add: session_4100)

text \<open>
  C5, amended: a four-byte length field (four bytes other than \<open>DONE\<close>) whose
  little-endian value is strictly greater than 4160, the size of the chunk buffer, is
  answered with \<open>ERROR chunk too large\<close> and ends the session; nothing of the chunk is
  read, hashed or programmed to flash.
\<close>

theorem oversize_chunk_rejected:
  assumes "readExactly 4 [] (rx s) = Some (hdr, rx1)" and "hdr \<noteq> str ''DONE''"
    and "Uint32 hdr > 4160"
  shows "fst (receive_loop tp po s) = ChunkTooLarge
       \<and> tx (snd (receive_loop tp po s)) = tx s @ str ''ERROR chunk too large\<newline>''
       \<and> rx (snd (receive_loop tp po s)) = rx1
       \<and> hasher (snd (receive_loop tp po s)) = hasher s
       \<and> flash (snd (receive_loop tp po s)) = flash s
       \<and> totalBytes (snd (receive_loop tp po s)) = totalBytes s"
  by (simp add: receive_loop_chunk_too_large [OF assms])

theorem oversize_chunk_rejected_witness:
  "fst (receive_loop 1 0x1F2000 (new_session [[0x41, 0x10, 0, 0], replicate 4161 7])) = ChunkTooLarge
   \<and> tx (snd (receive_loop 1 0x1F2000 (new_session [[0x41, 0x10, 0, 0], replicate 4161 7])))
       = str ''ERROR chunk too large\<newline>''
   \<and> rx (snd (receive_loop 1 0x1F2000 (new_session [[0x41, 0x10, 0, 0], replicate 4161 7])))
       = [replicate 4161 7]
   \<and> hasher (snd (receive_loop 1 0x1F2000 (new_session [[0x41, 0x10, 0, 0], replicate 4161 7]))) = []
   \<and> flash (snd (receive_loop 1 0x1F2000 (new_session [[0x41, 0x10, 0, 0], replicate 4161 7]))) = []"
proof -
  let ?s = "new_session [[0x41, 0x10, 0, 0], replicate 4161 7]"
  have h1: "readExactly 4 [] (rx ?s) = Some ([0x41, 0x10, 0, 0], [replicate 4161 7])"
    by (simp add: new_session_def)
  have h2: "[0x41, 0x10, 0, 0] \<noteq> str ''DONE''"
    by (simp add: str_def)
  have h3: "Uint32 [0x41, 0x10, 0, 0] > 4160"
    by simp
  from oversize_chunk_rejected [OF h1 h2 h3, of 1 "0x1F2000"]
  show ?thesis by (simp add: new_session_def)
qed

text \<open>
  C6: in every session, the bitmap starts all false, no offset is erased twice, and for
  every byte programmed to flash the sector that holds it is erased before the
  programming operation and exactly once in the whole session. (The offsets programmed
  are those the server computes from \<open>totalBytes\<close>, so they are always increasing and
  contiguous.)
\<close>

theorem sectors_erased_once_before_write:
  "erasedSectors (new_session segs) = replicate 512 False
   \<and> distinct (erase_offsets (flash (snd (handleOTASession current segs))))
   \<and> (\<forall>pre off data post j.
        flash (snd (handleOTASession current segs)) = pre @ FlashProgram off data # post
        \<and> j < length data \<longrightarrow>
          (\<exists>x\<in>set (erase_offsets pre). in_sector x (unat off + j))
          \<and> length (filter (\<lambda>x. in_sector x (unat off + j))
               (erase_offsets (flash (snd (handleOTASession current segs))))) = 1)"
proof -
  let ?po = "GetPartitionOffset (GetTargetPartition current)"
  let ?fl = "flash (snd (handleOTASession current segs))"
  have inv: "session_inv ?po (snd (handleOTASession current segs))"
    by (rule handleOTASession_inv)
  then have dist: "distinct (erase_offsets ?fl)" and cov: "covered ?fl"
    and set_eq: "set (erase_offsets ?fl) = (\<lambda>k. ?po + of_nat k * SectorSize) `
        {k. k < 512 \<and> erasedSectors (snd (handleOTASession current segs)) ! k}"
    by (simp_all add: session_inv_def)
  have form: "\<forall>y\<in>set (erase_offsets ?fl). \<exists>k<512. y = ?po + of_nat k * SectorSize"
    unfolding set_eq by blast
  have main: "(\<exists>x\<in>set (erase_offsets pre). in_sector x (unat off + j))
        \<and> length (filter (\<lambda>x. in_sector x (unat off + j)) (erase_offsets ?fl)) = 1"
    if eq: "?fl = pre @ FlashProgram off data # post" and j: "j < length data"
    for pre off data post j
  proof -
    from cov eq j obtain x where x: "x \<in> set (erase_offsets pre)" "in_sector x (unat off + j)"
      unfolding covered_def by blast
    have "set (erase_offsets pre) \<subseteq> set (erase_offsets ?fl)"
      by (subst eq) (simp add: erase_offsets_append)
    with x(1) have xin: "x \<in> set (erase_offsets ?fl)" by blast
    have uniq: "\<forall>y\<in>set (erase_offsets ?fl). in_sector y (unat off + j) \<longrightarrow> y = x"
    proof (intro ballI impI)
      fix y assume y: "y \<in> set (erase_offsets ?fl)" "in_sector y (unat off + j)"
      from form y(1) obtain k where k: "k < 512" "y = ?po + of_nat k * SectorSize" by blast
      from form xin obtain k' where k': "k' < 512" "x = ?po + of_nat k' * SectorSize" by blast
      have "in_sector (?po + of_nat k * SectorSize) (unat off + j)"
        using y(2) by (simp only: k(2))
      moreover have "in_sector (?po + of_nat k' * SectorSize) (unat off + j)"
        using x(2) by (simp only: k'(2))
      ultimately have "k = k'"
        by (rule in_sector_unique [OF po_ok_partitions k(1) k'(1)])
      then show "y = x" by (simp only: k(2) k'(2))
    qed
    have "filter (\<lambda>x. in_sector x (unat off + j)) (erase_offsets ?fl) = [x]"
      using dist xin x(2) uniq by (rule filter_single)
    then have "length (filter (\<lambda>x. in_sector x (unat off + j)) (erase_offsets ?fl)) = 1"
      by (simp only: list.size One_nat_def add_0)
    with x show ?thesis by blast
  qed
  have bitmap: "erasedSectors (new_session segs) = replicate 512 False"
    by (simp add: new_session_def)
  have "\<forall>pre off data post j. ?fl = pre @ FlashProgram off data # post \<and> j < length data \<longrightarrow>
          (\<exists>x\<in>set (erase_offsets pre). in_sector x (unat off + j))
          \<and> length (filter (\<lambda>x. in_sector x (unat off + j)) (erase_offsets ?fl)) = 1"
  proof (intro allI impI)
    fix pre off data post j
    assume "?fl = pre @ FlashProgram off data # post \<and> j < length data"
    then have "?fl = pre @ FlashProgram off data # post" and "j < length data" by blast+
    then show "(\<exists>x\<in>set (erase_offsets pre). in_sector x (unat off + j))
        \<and> length (filter (\<lambda>x. in_sector x (unat off + j)) (erase_offsets ?fl)) = 1"
      by (rule main)
  qed
  with bitmap dist show ?thesis by blast
qed

theorem sectors_erased_once_before_write_witness:
  "distinct (erase_offsets (flash (snd (handleOTASession 0
       [str ''OTA\<newline>'', [0x04, 0x10, 0, 0], replicate 4100 7]))))
   \<and> (\<exists>x\<in>set (erase_offsets [FlashErase 0x1F2000, FlashErase 0x1F3000]).
         in_sector x (unat (0x1F2000 :: u32) + 4099))
   \<and> length (filter (\<lambda>x. in_sector x (unat (0x1F2000 :: u32) + 4099))
        (erase_offsets (flash (snd (handleOTASession 0
           [str ''OTA\<newline>'', [0x04, 0x10, 0, 0], replicate 4100 7]))))) = 1"
proof -
  let ?segs = "[str ''OTA\<newline>'', [0x04, 0x10, 0, 0], replicate 4100 7]"
  note t = sectors_erased_once_before_write [of ?segs 0]
  have h: "flash (snd (handleOTASession 0 ?segs))
      = [FlashErase 0x1F2000, FlashErase 0x1F3000] @ FlashProgram 0x1F2000 (replicate 4100 7) # []
      \<and> 4099 < length (replicate 4100 (7 :: byte))"
    by (simp add: session_4100)
  from t [THEN conjunct2, THEN conjunct2, rule_format, OF h] t [THEN conjunct2, THEN conjunct1]
  show ?thesis by blast
qed

text \<open>
  C10: an image of 10000 bytes sent as chunks of 4096, 4096 and 1808 bytes is
  acknowledged with \<open>ACK 4096\<close>, \<open>ACK 8192\<close> and \<open>ACK 10000\<close>, and the sectors 0, 1 and
  2 of the target partition are erased, each once, and no other.
\<close>

theorem three_chunks_acks_and_sectors:
  assumes "length d1 = 4096" and "length d2 = 4096" and "length d3 = 1808"
  shows "tx (snd (handleOTASession current
            [str ''OTA\<newline>'', [0x00, 0x10, 0, 0], d1, [0x00, 0x10, 0, 0], d2, [0x10, 0x07, 0, 0], d3]))
        = str ''READY 2031616\<newline>ACK 4096\<newline>ACK 8192\<newline>ACK 10000\<newline>''
    \<and> erase_offsets (flash (snd (handleOTASession current
            [str ''OTA\<newline>'', [0x00, 0x10, 0, 0], d1, [0x00, 0x10, 0, 0], d2, [0x10, 0x07, 0, 0], d3])))
        = map (\<lambda>sector. GetPartitionOffset (GetTargetPartition current) + sector * SectorSize) [0, 1, 2]
    \<and> hasher (snd (handleOTASession current
            [str ''OTA\<newline>'', [0x00, 0x10, 0, 0], d1, [0x00, 0x10, 0, 0], d2, [0x10, 0x07, 0, 0], d3]))
        = d1 @ d2 @ d3"
  using assms by (auto simp: session_eval)

theorem three_chunks_acks_and_sectors_witness:
  "tx (snd (handleOTASession 0
            [str ''OTA\<newline>'', [0x00, 0x10, 0, 0], replicate 4096 0xA5, [0x00, 0x10, 0, 0],
             replicate 4096 0x5A, [0x10, 0x07, 0, 0], replicate 1808 0xA5]))
        = str ''READY 2031616\<newline>ACK 4096\<newline>ACK 8192\<newline>ACK 10000\<newline>''
   \<and> erase_offsets (flash (snd (handleOTASession 0
            [str ''OTA\<newline>'', [0x00, 0x10, 0, 0], replicate 4096 0xA5, [0x00, 0x10, 0, 0],
             replicate 4096 0x5A, [0x10, 0x07, 0, 0], replicate 1808 0xA5])))
        = [0x1F2000, 0x1F3000, 0x1F4000]"
  using three_chunks_acks_and_sectors [of "replicate 4096 0xA5" "replicate 4096 0x5A"
      "replicate 1808 0xA5" 0]
  by (simp add: GetPartitionOffset_def GetTargetPartition_def PartitionA_def PartitionB_def
      SectorSize_def)


end
